theory Spec2Isabelle
  imports Main "HOL-Library.Word"
begin

section \<open>The tag-input component (src/components/ui/tag-input.tsx)\<close>

subsection \<open>JavaScript strings\<close>

text \<open>
  A JavaScript string is a sequence of UTF-16 code units. The regular expression of
  \<^verbatim>\<open>handleInputChange\<close> has no \<^verbatim>\<open>u\<close> flag, so it works on code units as well.
  \<open>js\<close> writes an ASCII literal as such a string.
\<close>

type_synonym code_unit = "16 word"
type_synonym jsstring = "code_unit list"

definition js :: "string \<Rightarrow> jsstring" where
  "js cs = map of_char cs"

text \<open>
  White space as ECMAScript defines it for \<^verbatim>\<open>\s\<close> and for \<^verbatim>\<open>String.prototype.trim\<close>:
  the WhiteSpace and LineTerminator productions (TAB, LF, VT, FF, CR, SP, NBSP,
  U+1680, U+2000 to U+200A, LS, PS, U+202F, U+205F, U+3000, ZWNBSP).
\<close>

definition is_space :: "code_unit \<Rightarrow> bool" where
  "is_space c =
     (c = 0x09 \<or> c = 0x0A \<or> c = 0x0B \<or> c = 0x0C \<or> c = 0x0D \<or> c = 0x20 \<or> c = 0xA0
      \<or> c = 0x1680 \<or> (0x2000 \<le> c \<and> c \<le> 0x200A) \<or> c = 0x2028 \<or> c = 0x2029
      \<or> c = 0x202F \<or> c = 0x205F \<or> c = 0x3000 \<or> c = 0xFEFF)"

text \<open>\<^verbatim>\<open>s.trim()\<close>: white space removed from both ends.\<close>

definition trim :: "jsstring \<Rightarrow> jsstring" where
  "trim s = rev (dropWhile is_space (rev (dropWhile is_space s)))"

subsection \<open>The regular expression \<^verbatim>\<open>/([^\s,;]+)(,|;|\s)/g\<close>\<close>

text \<open>The character class \<^verbatim>\<open>[^\s,;]\<close> of group 1 and the alternatives \<^verbatim>\<open>,|;|\s\<close> of group 2.\<close>

definition non_delim :: "code_unit \<Rightarrow> bool" where
  "non_delim c = (\<not> (is_space c \<or> c = 0x2C \<or> c = 0x3B))"

definition delim :: "code_unit \<Rightarrow> bool" where
  "delim c = (c = 0x2C \<or> c = 0x3B \<or> is_space c)"

text \<open>
  One match attempt at the start of \<open>s\<close>. The quantifier \<^verbatim>\<open>+\<close> is greedy: group 1 first
  takes the longest run of class characters and backtracks one character at a time, down to
  one character; for each length \<open>k\<close>, group 2 needs a delimiter at offset \<open>k\<close>. The result
  is the length of group 1 in the first attempt that succeeds.
\<close>

definition match_here :: "jsstring \<Rightarrow> nat option" where
  "match_here s =
     find (\<lambda>k. k < length s \<and> delim (s ! k))
       (rev [1..<Suc (length (takeWhile non_delim s))])"

text \<open>
  The global scan of \<^verbatim>\<open>replaceAll\<close>: the leftmost match is looked for from the current
  position; where no match starts, the code unit is kept and the search moves on by one;
  after a match the search resumes behind it.
\<close>

datatype piece = Literal code_unit | Match jsstring code_unit

fun scan :: "jsstring \<Rightarrow> piece list" where
  "scan [] = []"
| "scan (c # cs) =
     (case match_here (c # cs) of
        None \<Rightarrow> Literal c # scan cs
      | Some k \<Rightarrow> Match (take k (c # cs)) ((c # cs) ! k) # scan (drop (Suc k) (c # cs)))"

text \<open>
  \<^verbatim>\<open>text.replaceAll(regex, (_wholeMatch, tagText) => { newTags.push(tagText.trim()); return ""; })\<close>:
  the callback runs once per match, in order, pushes onto \<open>newTags\<close> and replaces the
  match by the empty string. The result is the array after the call and the new text.
\<close>

fun replaceAll :: "piece list \<Rightarrow> jsstring list \<Rightarrow> jsstring list \<times> jsstring" where
  "replaceAll [] newTags = (newTags, [])"
| "replaceAll (Literal c # ps) newTags =
     (let (newTags', out) = replaceAll ps newTags in (newTags', c # out))"
| "replaceAll (Match tagText d # ps) newTags =
     (let (newTags', out) = replaceAll ps (newTags @ [trim tagText]) in (newTags', [] @ out))"

subsection \<open>Arrays and sets\<close>

text \<open>
  \<^verbatim>\<open>[...new Set(xs)]\<close>: the Set constructor adds the elements in order, an element
  already present is not added again, and iteration is in insertion order.
\<close>

definition set_add :: "'a list \<Rightarrow> 'a \<Rightarrow> 'a list" where
  "set_add acc x = (if x \<in> set acc then acc else acc @ [x])"

definition new_Set :: "'a list \<Rightarrow> 'a list" where
  "new_Set xs = foldl set_add [] xs"

text \<open>
  \<^verbatim>\<open>xs.slice(start, end)\<close>: a negative index counts from the end, and both are clamped
  to the array.
\<close>

definition slice :: "'a list \<Rightarrow> int \<Rightarrow> int \<Rightarrow> 'a list" where
  "slice xs start end =
     (let len = int (length xs);
          k = (if start < 0 then max (len + start) 0 else min start len);
          final = (if end < 0 then max (len + end) 0 else min end len)
      in take (nat (max (final - k) 0)) (drop (nat k) xs))"

subsection \<open>Component state and handlers\<close>

text \<open>The three \<^verbatim>\<open>useState\<close> variables of \<^verbatim>\<open>TagInput\<close>.\<close>

record editor =
  inputText :: jsstring
  tags :: "jsstring list"
  deletionIsPending :: bool

text \<open>What a handler does besides setting state, in the order it does it.\<close>

datatype effect = PreventDefault | OnValueChange "jsstring list"

text \<open>
  Every handler runs on the state of the last render \<open>s\<close>: the names \<^verbatim>\<open>tags\<close> and
  \<^verbatim>\<open>deletionIsPending\<close> in its body read \<open>s\<close>, and an updater passed to
  \<^verbatim>\<open>setTags\<close> is applied to the state as set so far in the handler. The component is
  rendered again before the next event.

  \<open>handleInputChange s text\<close>, with \<open>text\<close> the \<^verbatim>\<open>e.target.value\<close> of the event.
\<close>

definition handleInputChange :: "editor \<Rightarrow> jsstring \<Rightarrow> editor \<times> effect list" where
  "handleInputChange s text =
     (let (newTags, newText) = replaceAll (scan text) []
      in (s\<lparr>tags := new_Set (tags s @ newTags),
             deletionIsPending := False,
             inputText := newText\<rparr>,
          [OnValueChange (new_Set (tags s @ newTags))]))"

text \<open>
  \<open>handleKeyDown s key text\<close>, with \<open>key\<close> the \<^verbatim>\<open>e.key\<close> and \<open>text\<close> the
  \<^verbatim>\<open>e.currentTarget.value\<close> of the event. The two \<^verbatim>\<open>if\<close> statements run one after
  the other.
\<close>

definition handleKeyDown :: "editor \<Rightarrow> jsstring \<Rightarrow> jsstring \<Rightarrow> editor \<times> effect list" where
  "handleKeyDown s key text =
     (let (s1, fx1) =
            (if key = js ''Enter'' then
               (if text \<noteq> [] \<and> trim text \<notin> set (tags s) then
                  (s\<lparr>tags := new_Set (tags s @ [trim text]), inputText := []\<rparr>,
                   [PreventDefault, OnValueChange (new_Set (tags s @ [trim text]))])
                else (s, [PreventDefault]))
             else (s, []))
      in (if key = js ''Backspace'' \<and> text = [] then
            (if deletionIsPending s then
               (s1\<lparr>tags := slice (tags s1) 0 (int (length (tags s1)) - 1),
                    deletionIsPending := False\<rparr>,
                fx1 @ [OnValueChange (slice (tags s) 0 (int (length (tags s)) - 1))])
             else (s1\<lparr>deletionIsPending := True\<rparr>, fx1))
          else (s1, fx1)))"

text \<open>The \<^verbatim>\<open>onDelete\<close> callback of the item rendered for \<open>tag\<close>.\<close>

definition onDelete :: "editor \<Rightarrow> jsstring \<Rightarrow> editor \<times> effect list" where
  "onDelete s tag =
     (s\<lparr>tags := filter (\<lambda>tagB. tagB \<noteq> tag) (tags s)\<rparr>,
      [OnValueChange (filter (\<lambda>tagB. tagB \<noteq> tag) (tags s))])"

text \<open>
  The \<^verbatim>\<open>isUpForDeletion\<close> property of each rendered item:
  \<^verbatim>\<open>tags.map((tag, i) => i === tags.length - 1 && deletionIsPending)\<close>.
\<close>

definition isUpForDeletion :: "editor \<Rightarrow> bool list" where
  "isUpForDeletion s =
     map (\<lambda>i. int i = int (length (tags s)) - 1 \<and> deletionIsPending s) [0..<length (tags s)]"

text \<open>A sequence of change events, each handled on the state the previous one left.\<close>

fun handleInputChanges :: "editor \<Rightarrow> jsstring list \<Rightarrow> editor" where
  "handleInputChanges s [] = s"
| "handleInputChanges s (text # texts) = handleInputChanges (fst (handleInputChange s text)) texts"


subsection \<open>Notions used to state the properties\<close>

text \<open>
  First-occurrence order, stated on positions: the element at position \<open>i\<close> is kept when it
  does not occur at an earlier position.
\<close>

definition first_occurrences :: "'a list \<Rightarrow> 'a list" where
  "first_occurrences xs =
     map (\<lambda>i. xs ! i) (filter (\<lambda>i. xs ! i \<notin> set (take i xs)) [0..<length xs])"

text \<open>The tag texts pushed by the callback and the code units left in the text.\<close>

fun captured :: "piece list \<Rightarrow> jsstring list" where
  "captured [] = []"
| "captured (Literal c # ps) = captured ps"
| "captured (Match tagText d # ps) = trim tagText # captured ps"

fun literals :: "piece list \<Rightarrow> jsstring" where
  "literals [] = []"
| "literals (Literal c # ps) = c # literals ps"
| "literals (Match tagText d # ps) = literals ps"

text \<open>
  A text holds a delimiter directly followed by a non-delimiter
  (\<open>delim_then_text\<close>), or a non-delimiter directly followed by a delimiter
  (\<open>text_then_delim\<close>).
\<close>

fun delim_then_text :: "jsstring \<Rightarrow> bool" where
  "delim_then_text (c # d # cs) = ((delim c \<and> non_delim d) \<or> delim_then_text (d # cs))"
| "delim_then_text cs = False"

fun text_then_delim :: "jsstring \<Rightarrow> bool" where
  "text_then_delim (c # d # cs) = ((non_delim c \<and> delim d) \<or> text_then_delim (d # cs))"
| "text_then_delim cs = False"

text \<open>A tag as the data model wants it: not empty and equal to its trimmed form.\<close>

definition valid_tag :: "jsstring \<Rightarrow> bool" where
  "valid_tag t = (t \<noteq> [] \<and> trim t = t)"

section \<open>Properties\<close>

subsection \<open>Sets in insertion order\<close>

lemma delim_iff: "delim c = (\<not> non_delim c)"
  by (auto simp: delim_def non_delim_def)

lemma set_foldl_set_add: "set (foldl set_add acc xs) = set acc \<union> set xs"
  by (induction xs arbitrary: acc) (auto simp: set_add_def)

lemma distinct_foldl_set_add: "distinct acc \<Longrightarrow> distinct (foldl set_add acc xs)"
  by (induction xs arbitrary: acc) (auto simp: set_add_def)

lemma foldl_set_add_distinct: "distinct (acc @ xs) \<Longrightarrow> foldl set_add acc xs = acc @ xs"
  by (induction xs arbitrary: acc) (auto simp: set_add_def)

lemma set_new_Set: "set (new_Set xs) = set xs"
  by (simp add: new_Set_def set_foldl_set_add)

lemma distinct_new_Set: "distinct (new_Set xs)"
  by (simp add: new_Set_def distinct_foldl_set_add)

lemma new_Set_distinct: "distinct xs \<Longrightarrow> new_Set xs = xs"
  using foldl_set_add_distinct [of "[]" xs] by (simp add: new_Set_def)

lemma new_Set_snoc: "new_Set (xs @ [x]) = (if x \<in> set xs then new_Set xs else new_Set xs @ [x])"
  by (simp add: new_Set_def set_add_def set_foldl_set_add)

lemma new_Set_new_Set_append: "new_Set (new_Set xs @ ys) = new_Set (xs @ ys)"
proof -
  have "new_Set (new_Set xs @ ys) = foldl set_add (foldl set_add [] (new_Set xs)) ys"
    by (simp add: new_Set_def)
  also have "foldl set_add [] (new_Set xs) = new_Set xs"
    using new_Set_distinct [OF distinct_new_Set, of xs] by (simp add: new_Set_def)
  finally show ?thesis by (simp add: new_Set_def)
qed

lemma first_occurrences_snoc:
  "first_occurrences (xs @ [x]) =
     (if x \<in> set xs then first_occurrences xs else first_occurrences xs @ [x])"
proof -
  have keep: "filter (\<lambda>i. (xs @ [x]) ! i \<notin> set (take i (xs @ [x]))) [0..<length xs]
              = filter (\<lambda>i. xs ! i \<notin> set (take i xs)) [0..<length xs]"
    by (rule filter_cong) (auto simp: nth_append)
  have nth: "map (\<lambda>i. (xs @ [x]) ! i) (filter (\<lambda>i. xs ! i \<notin> set (take i xs)) [0..<length xs])
             = map (\<lambda>i. xs ! i) (filter (\<lambda>i. xs ! i \<notin> set (take i xs)) [0..<length xs])"
    by (rule map_cong) (auto simp: nth_append)
  show ?thesis
    apply (simp only: first_occurrences_def length_append_singleton upt_Suc_append [OF le0]
        filter_append map_append keep nth)
    apply simp
    done
qed

lemma new_Set_first_occurrences: "new_Set xs = first_occurrences xs"
proof (induction xs rule: rev_induct)
  case Nil
  show ?case by (simp add: new_Set_def first_occurrences_def)
next
  case (snoc x xs)
  then show ?case by (simp add: new_Set_snoc first_occurrences_snoc)
qed

lemma no_delim_in_run:
  assumes "k < length (takeWhile non_delim s)"
  shows "\<not> delim (s ! k)"
proof -
  have "takeWhile non_delim s ! k \<in> set (takeWhile non_delim s)"
    using assms by (rule nth_mem)
  then have "non_delim (takeWhile non_delim s ! k)"
    by (rule set_takeWhileD [THEN conjunct2])
  then show ?thesis
    using assms by (simp add: takeWhile_nth delim_iff)
qed

lemma run_shorter_iff:
  "(length (takeWhile P s) < length s) = (dropWhile P s \<noteq> [])"
proof -
  have "length (takeWhile P s) + length (dropWhile P s) = length s"
    by (metis length_append takeWhile_dropWhile_id)
  then show ?thesis by (cases "dropWhile P s") auto
qed

lemma match_here_eq:
  "match_here s =
     (if takeWhile non_delim s \<noteq> [] \<and> dropWhile non_delim s \<noteq> []
      then Some (length (takeWhile non_delim s)) else None)"
proof (cases "takeWhile non_delim s = []")
  case True
  then show ?thesis by (simp add: match_here_def)
next
  case False
  define n where "n = length (takeWhile non_delim s)"
  have n: "0 < n" using False by (simp add: n_def)
  have shorter: "find (\<lambda>k. k < length s \<and> delim (s ! k)) (rev [1..<n]) = None"
    by (auto simp: find_None_iff n_def dest: no_delim_in_run)
  have upt: "rev [1..<Suc n] = n # rev [1..<n]"
    using n by simp
  have longest: "(n < length s \<and> delim (s ! n)) = (dropWhile non_delim s \<noteq> [])"
    using nth_length_takeWhile [of non_delim s] run_shorter_iff [of non_delim s]
    by (auto simp: n_def delim_iff)
  show ?thesis
    using False
    by (simp only: match_here_def n_def [symmetric] upt find.simps shorter longest) simp
qed


subsection \<open>The scan\<close>

lemma replaceAll_eq: "replaceAll ps newTags = (newTags @ captured ps, literals ps)"
  by (induction ps newTags rule: replaceAll.induct) auto

lemma handleInputChange_eq:
  "handleInputChange s text =
     (s\<lparr>tags := new_Set (tags s @ captured (scan text)),
        deletionIsPending := False,
        inputText := literals (scan text)\<rparr>,
      [OnValueChange (new_Set (tags s @ captured (scan text)))])"
  by (simp add: handleInputChange_def replaceAll_eq)

lemma trim_no_space:
  assumes "\<forall>c\<in>set g. \<not> is_space c"
  shows "trim g = g"
proof -
  have front: "dropWhile is_space g = g"
    using assms by (cases g) auto
  have "\<forall>c\<in>set (rev g). \<not> is_space c"
    using assms by simp
  then have rear: "dropWhile is_space (rev g) = rev g"
    by (cases "rev g") auto
  show ?thesis
    by (simp add: trim_def front rear)
qed

lemma valid_tag_run:
  assumes "takeWhile non_delim s \<noteq> []"
  shows "valid_tag (trim (take (length (takeWhile non_delim s)) s))"
proof -
  let ?g = "takeWhile non_delim s"
  have g: "take (length ?g) s = ?g"
    by (rule takeWhile_eq_take [symmetric])
  have "\<forall>c\<in>set ?g. \<not> is_space c"
    by (auto dest: set_takeWhileD simp: non_delim_def)
  then have "trim ?g = ?g"
    by (rule trim_no_space)
  then show ?thesis
    using assms by (simp add: valid_tag_def g)
qed

lemma captured_scan_valid: "\<forall>t\<in>set (captured (scan s)). valid_tag t"
proof (induction s rule: scan.induct)
  case 1
  show ?case by simp
next
  case (2 c cs)
  show ?case
  proof (cases "match_here (c # cs)")
    case None
    with 2 show ?thesis by simp
  next
    case (Some k)
    then have k: "k = length (takeWhile non_delim (c # cs))"
      and run: "takeWhile non_delim (c # cs) \<noteq> []"
      by (auto simp: match_here_eq split: if_splits)
    have "valid_tag (trim (take k (c # cs)))"
      unfolding k using run by (rule valid_tag_run)
    with 2 Some show ?thesis by simp
  qed
qed

lemma scan_all_text: "list_all non_delim s \<Longrightarrow> scan s = map Literal s"
proof (induction s)
  case Nil
  show ?case by simp
next
  case (Cons c cs)
  then have "dropWhile non_delim (c # cs) = []"
    by (simp add: list_all_iff)
  then have "match_here (c # cs) = None"
    by (simp only: match_here_eq) simp
  with Cons show ?case by simp
qed

lemma literals_Literal: "literals (map Literal s) = s"
  by (induction s) auto

lemma text_then_delim_all_text: "list_all non_delim s \<Longrightarrow> \<not> text_then_delim s"
  by (induction s rule: text_then_delim.induct) (auto simp: delim_iff)

lemma text_then_delim_Cons_delim: "delim c \<Longrightarrow> text_then_delim (c # s) = text_then_delim s"
  by (cases s) (auto simp: delim_iff)

lemma scan_Cons_cases:
  obtains (delimiter) "delim c" "scan (c # cs) = Literal c # scan cs"
  | (unterminated) "list_all non_delim (c # cs)"
  | (matched) g d k where "scan (c # cs) = Match g d # scan (drop k cs)"
proof (cases "non_delim c")
  case False
  then have "match_here (c # cs) = None"
    by (simp add: match_here_eq)
  with False delimiter show ?thesis
    by (simp add: delim_iff)
next
  case True
  show ?thesis
  proof (cases "dropWhile non_delim cs = []")
    case True
    with \<open>non_delim c\<close> have "list_all non_delim (c # cs)"
      by (simp add: list_all_iff dropWhile_eq_Nil_conv)
    then show ?thesis by (rule unterminated)
  next
    case False
    define n where "n = length (takeWhile non_delim cs)"
    from False \<open>non_delim c\<close> have "match_here (c # cs) = Some (Suc n)"
      by (simp add: match_here_eq n_def)
    then have "scan (c # cs) = Match (take (Suc n) (c # cs)) ((c # cs) ! Suc n) # scan (drop (Suc n) cs)"
      by simp
    then show ?thesis by (rule matched)
  qed
qed

lemma literals_scan_no_match: "\<not> text_then_delim (literals (scan s))"
proof (induction s rule: length_induct)
  case (1 s)
  show ?case
  proof (cases s)
    case Nil
    then show ?thesis by simp
  next
    case (Cons c cs)
    show ?thesis
    proof (cases c cs rule: scan_Cons_cases)
      case delimiter
      moreover have "\<not> text_then_delim (literals (scan cs))"
        using 1 Cons by simp
      ultimately show ?thesis
        using Cons by (simp add: text_then_delim_Cons_delim)
    next
      case unterminated
      then show ?thesis
        using Cons by (simp only: scan_all_text literals_Literal text_then_delim_all_text) simp
    next
      case (matched g d k)
      moreover have "\<not> text_then_delim (literals (scan (drop k cs)))"
        using 1 Cons by simp
      ultimately show ?thesis
        using Cons by simp
    qed
  qed
qed

lemma literals_scan_shape: "list_all non_delim (dropWhile delim (literals (scan s)))"
proof (induction s rule: length_induct)
  case (1 s)
  show ?case
  proof (cases s)
    case Nil
    then show ?thesis by simp
  next
    case (Cons c cs)
    show ?thesis
    proof (cases c cs rule: scan_Cons_cases)
      case delimiter
      moreover have "list_all non_delim (dropWhile delim (literals (scan cs)))"
        using 1 Cons by simp
      ultimately show ?thesis
        using Cons by simp
    next
      case unterminated
      then have "dropWhile delim (c # cs) = c # cs"
        by (simp add: delim_iff)
      with unterminated show ?thesis
        using Cons by (simp only: scan_all_text literals_Literal)
    next
      case (matched g d k)
      moreover have "list_all non_delim (dropWhile delim (literals (scan (drop k cs))))"
        using 1 Cons by simp
      ultimately show ?thesis
        using Cons by simp
    qed
  qed
qed


subsection \<open>Sequences of change events\<close>

lemma tags_handleInputChanges:
  "distinct (tags s) \<Longrightarrow>
   tags (handleInputChanges s texts) =
     new_Set (tags s @ concat (map (\<lambda>text. captured (scan text)) texts))"
proof (induction texts arbitrary: s)
  case Nil
  then show ?case by (simp add: new_Set_distinct)
next
  case (Cons raw texts)
  have "distinct (tags (fst (handleInputChange s raw)))"
    by (simp add: handleInputChange_eq distinct_new_Set)
  then have "tags (handleInputChanges (fst (handleInputChange s raw)) texts) =
      new_Set (tags (fst (handleInputChange s raw))
        @ concat (map (\<lambda>text. captured (scan text)) texts))"
    by (rule Cons.IH)
  then show ?case
    by (simp add: handleInputChange_eq new_Set_new_Set_append)
qed

lemma valid_handleInputChanges:
  "\<forall>t\<in>set (tags s). valid_tag t \<Longrightarrow>
   \<forall>t\<in>set (tags (handleInputChanges s texts)). valid_tag t"
proof (induction texts arbitrary: s)
  case Nil
  then show ?case by simp
next
  case (Cons raw texts)
  have "\<forall>t\<in>set (tags (fst (handleInputChange s raw))). valid_tag t"
    using Cons.prems captured_scan_valid [of raw]
    by (auto simp: handleInputChange_eq set_new_Set)
  then show ?case
    using Cons.IH by simp
qed

lemma distinct_handleInputChanges:
  "distinct (tags s) \<Longrightarrow> distinct (tags (handleInputChanges s texts))"
  by (simp add: tags_handleInputChanges distinct_new_Set)

subsection \<open>Key names and counting\<close>

lemma Enter_neq_Backspace: "js ''Enter'' \<noteq> js ''Backspace''"
  by (simp add: js_def)


section \<open>The claims\<close>

text \<open>
  C1, as amended. For every sequence of handleTextChange calls that starts from a TagList
  whose elements are pairwise distinct, not empty and equal to their trimmed form, the
  resulting TagList has no two elements equal as trimmed strings, holds no empty string,
  and is in first-occurrence order: it is the initial list followed by the captured tags of
  all calls, each kept at its first occurrence only.
\<close>

theorem TagList_invariant_handleInputChanges:
  assumes "distinct (tags s)" and "\<forall>t\<in>set (tags s). valid_tag t"
  shows "distinct (map trim (tags (handleInputChanges s texts)))
    \<and> [] \<notin> set (tags (handleInputChanges s texts))
    \<and> tags (handleInputChanges s texts) =
        first_occurrences
          (tags s @ concat (map (\<lambda>text. fst (replaceAll (scan text) [])) texts))"
proof -
  let ?r = "tags (handleInputChanges s texts)"
  have valid: "\<forall>t\<in>set ?r. valid_tag t"
    using assms(2) by (rule valid_handleInputChanges)
  then have "map trim ?r = ?r"
    by (simp add: valid_tag_def map_idI)
  moreover have "distinct ?r"
    using assms(1) by (rule distinct_handleInputChanges)
  ultimately have "distinct (map trim ?r)"
    by simp
  moreover have "[] \<notin> set ?r"
    using valid by (auto simp: valid_tag_def)
  moreover have "?r =
      first_occurrences
        (tags s @ concat (map (\<lambda>text. fst (replaceAll (scan text) [])) texts))"
    using assms(1)
    by (simp add: tags_handleInputChanges replaceAll_eq new_Set_first_occurrences)
  ultimately show ?thesis
    by simp
qed

theorem TagList_invariant_handleInputChanges_witness:
  "distinct (tags \<lparr>inputText = [], tags = [js ''a'', js ''b''], deletionIsPending = False\<rparr>)
   \<and> valid_tag (js ''a'') \<and> valid_tag (js ''b'')
   \<and> distinct (map trim (tags (handleInputChanges
        \<lparr>inputText = [], tags = [js ''a'', js ''b''], deletionIsPending = False\<rparr>
        [js ''b,c '', js ''a;d'', js '',''])))
   \<and> [] \<notin> set (tags (handleInputChanges
        \<lparr>inputText = [], tags = [js ''a'', js ''b''], deletionIsPending = False\<rparr>
        [js ''b,c '', js ''a;d'', js '','']))
   \<and> tags (handleInputChanges
        \<lparr>inputText = [], tags = [js ''a'', js ''b''], deletionIsPending = False\<rparr>
        [js ''b,c '', js ''a;d'', js '','']) =
      first_occurrences
        (tags \<lparr>inputText = [], tags = [js ''a'', js ''b''], deletionIsPending = False\<rparr>
         @ concat (map (\<lambda>text. fst (replaceAll (scan text) []))
             [js ''b,c '', js ''a;d'', js '','']))"
proof -
  let ?s = "\<lparr>inputText = [], tags = [js ''a'', js ''b''], deletionIsPending = False\<rparr>"
  have d: "distinct (tags ?s)"
    by (simp add: js_def)
  have a: "valid_tag (js ''a'')" and b: "valid_tag (js ''b'')"
    by (simp_all add: js_def valid_tag_def trim_def is_space_def)
  have v: "\<forall>t\<in>set (tags ?s). valid_tag t"
    using a b by simp
  note c = TagList_invariant_handleInputChanges
    [OF d v, of "[js ''b,c '', js ''a;d'', js '','']"]
  show ?thesis
    using d a b c by blast
qed

text \<open>
  C1 as stated fails. A duplicate-free initial list may hold the empty string, which stays
  in the list; and it may hold a tag with white space at an end, beside which the same
  text is added again without the white space.
\<close>

theorem TagList_invariant_counterexample:
  "distinct [[] :: jsstring]
   \<and> [] \<in> set (tags (handleInputChanges
        \<lparr>inputText = [], tags = [[]], deletionIsPending = False\<rparr> [js ''a,'']))
   \<and> distinct (map trim [js ''a ''])
   \<and> \<not> distinct (map trim (tags (handleInputChanges
        \<lparr>inputText = [], tags = [js ''a ''], deletionIsPending = False\<rparr> [js ''a,''])))"
  by code_simp

text \<open>
  C2, as amended. With an empty TagList, handleTextChange on \<^verbatim>\<open>"alpha, beta;gamma "\<close>
  yields the TagList alpha, beta, gamma, notifies the host with it, and leaves the
  InputBuffer \<^verbatim>\<open>" "\<close>: the space behind the comma starts no match and is kept.
\<close>

theorem delimiter_parsing:
  "handleInputChange \<lparr>inputText = b, tags = [], deletionIsPending = p\<rparr>
     (js ''alpha, beta;gamma '') =
   (\<lparr>inputText = js '' '', tags = [js ''alpha'', js ''beta'', js ''gamma''],
     deletionIsPending = False\<rparr>,
    [OnValueChange [js ''alpha'', js ''beta'', js ''gamma'']])"
  by (simp add: handleInputChange_def js_def match_here_def non_delim_def delim_def
      is_space_def trim_def new_Set_def set_add_def)

text \<open>C2 as stated fails: the InputBuffer is not empty after the call.\<close>

theorem delimiter_parsing_counterexample:
  "inputText (fst (handleInputChange
      \<lparr>inputText = [], tags = [], deletionIsPending = False\<rparr>
      (js ''alpha, beta;gamma ''))) \<noteq> []"
  by code_simp

text \<open>
  C3. On Enter with the buffer \<^verbatim>\<open>" "\<close> the handler tests the untrimmed text against
  the empty string and then adds the trimmed one: the empty tag is appended, the buffer is
  cleared and the host is notified.
\<close>

theorem Enter_whitespace_only:
  "trim (js '' '') = []
   \<and> handleKeyDown \<lparr>inputText = js '' '', tags = [], deletionIsPending = False\<rparr>
       (js ''Enter'') (js '' '') =
     (\<lparr>inputText = [], tags = [[]], deletionIsPending = False\<rparr>,
      [PreventDefault, OnValueChange [[]]])"
  by (simp add: handleKeyDown_def js_def trim_def is_space_def new_Set_def set_add_def)

text \<open>
  C4, as amended. After every handleTextChange call the InputBuffer holds no non-delimiter
  directly followed by a delimiter: it is a run of delimiters followed by a run of
  non-delimiters (either may be empty).
\<close>

theorem InputBuffer_no_match_left:
  "\<not> text_then_delim (inputText (fst (handleInputChange s text)))
   \<and> list_all non_delim (dropWhile delim (inputText (fst (handleInputChange s text))))"
  by (simp add: handleInputChange_eq literals_scan_no_match literals_scan_shape)

theorem InputBuffer_no_match_left_witness:
  "\<not> text_then_delim (inputText (fst (handleInputChange
      \<lparr>inputText = [], tags = [], deletionIsPending = False\<rparr> (js ''a, ;b c''))))
   \<and> list_all non_delim (dropWhile delim (inputText (fst (handleInputChange
      \<lparr>inputText = [], tags = [], deletionIsPending = False\<rparr> (js ''a, ;b c'')))))"
  by (rule InputBuffer_no_match_left)

text \<open>
  C4 as stated fails: after \<^verbatim>\<open>"a, b"\<close> the InputBuffer is \<^verbatim>\<open>" b"\<close>, a delimiter
  followed by non-delimiter text.
\<close>

theorem InputBuffer_counterexample:
  "delim_then_text (inputText (fst (handleInputChange
      \<lparr>inputText = [], tags = [], deletionIsPending = False\<rparr> (js ''a, b''))))"
  by code_simp

text \<open>
  C5, as amended. Every handleTextChange call leaves PendingDeletion false: so does every
  keystroke that changes the text and every tag addition by a delimiter. handleKeyDown for
  a key other than a qualifying Backspace leaves PendingDeletion as it was. Where
  PendingDeletion is set only with an empty InputBuffer, a keydown on a non-empty buffer,
  and so every tag addition by Enter, leaves PendingDeletion false.
\<close>

theorem PendingDeletion_reset:
  "deletionIsPending (fst (handleInputChange s raw)) = False
   \<and> (\<not> (key = js ''Backspace'' \<and> buf = []) \<longrightarrow>
        deletionIsPending (fst (handleKeyDown s key buf)) = deletionIsPending s)
   \<and> ((deletionIsPending s \<longrightarrow> inputText s = []) \<and> inputText s \<noteq> [] \<longrightarrow>
        deletionIsPending (fst (handleKeyDown s key (inputText s))) = False)"
proof -
  have change: "deletionIsPending (fst (handleInputChange s raw)) = False"
    by (simp add: handleInputChange_eq)
  have other: "deletionIsPending (fst (handleKeyDown s k b)) = deletionIsPending s"
    if "\<not> (k = js ''Backspace'' \<and> b = [])" for k b
    using that by (auto simp: handleKeyDown_def Enter_neq_Backspace)
  have "deletionIsPending (fst (handleKeyDown s key (inputText s))) = False"
    if "deletionIsPending s \<longrightarrow> inputText s = []" and "inputText s \<noteq> []"
    using that other [of key "inputText s"] by simp
  with change other [of key buf] show ?thesis
    by blast
qed

theorem PendingDeletion_reset_witness:
  "js ''Enter'' \<noteq> js ''Backspace''
   \<and> \<not> deletionIsPending \<lparr>inputText = js ''x'', tags = [js ''a''], deletionIsPending = False\<rparr>
   \<and> inputText \<lparr>inputText = js ''x'', tags = [js ''a''], deletionIsPending = False\<rparr> \<noteq> []
   \<and> deletionIsPending (fst (handleInputChange
        \<lparr>inputText = js ''x'', tags = [js ''a''], deletionIsPending = False\<rparr> (js ''b,''))) = False
   \<and> deletionIsPending (fst (handleKeyDown
        \<lparr>inputText = js ''x'', tags = [js ''a''], deletionIsPending = False\<rparr>
        (js ''Enter'') (js ''x''))) = False"
  using PendingDeletion_reset
    [of "\<lparr>inputText = js ''x'', tags = [js ''a''], deletionIsPending = False\<rparr>"
        "js ''b,''" "js ''Enter''" "js ''x''"]
  by (simp add: js_def)

text \<open>
  C5 as stated fails: with PendingDeletion set and the buffer empty, the keydown of
  ArrowLeft leaves PendingDeletion set.
\<close>

theorem PendingDeletion_counterexample:
  "deletionIsPending (fst (handleKeyDown
      \<lparr>inputText = [], tags = [js ''a'', js ''b'', js ''c''], deletionIsPending = True\<rparr>
      (js ''ArrowLeft'') [])) = True"
  by (simp add: handleKeyDown_def js_def)

text \<open>
  C6. With TagList a, b, c, an empty buffer and PendingDeletion false, the first Backspace
  leaves the TagList as it is, notifies nobody and sets PendingDeletion; then the last tag,
  and no other, is flagged isUpForDeletion. The second Backspace removes the last tag,
  notifies the host with a, b and resets PendingDeletion.
\<close>

theorem two_phase_delete:
  "handleKeyDown \<lparr>inputText = [], tags = [a, b, c], deletionIsPending = False\<rparr>
     (js ''Backspace'') [] =
     (\<lparr>inputText = [], tags = [a, b, c], deletionIsPending = True\<rparr>, [])
   \<and> isUpForDeletion \<lparr>inputText = [], tags = [a, b, c], deletionIsPending = True\<rparr> =
     [False, False, True]
   \<and> handleKeyDown \<lparr>inputText = [], tags = [a, b, c], deletionIsPending = True\<rparr>
     (js ''Backspace'') [] =
     (\<lparr>inputText = [], tags = [a, b], deletionIsPending = False\<rparr>, [OnValueChange [a, b]])"
proof -
  have upt: "[0..<3] = [0, 1, 2]"
    by (simp add: upt_rec)
  note key = Enter_neq_Backspace [symmetric]
  show ?thesis
    by (simp add: handleKeyDown_def key slice_def isUpForDeletion_def upt)
qed

text \<open>
  C7, as amended. With an empty TagList, handleTextChange on \<^verbatim>\<open>"alpha, be"\<close> yields
  the TagList alpha and the InputBuffer \<^verbatim>\<open>" be"\<close>: the space behind the comma is kept in
  front of the text still being typed.
\<close>

theorem partial_input:
  "handleInputChange \<lparr>inputText = b, tags = [], deletionIsPending = p\<rparr> (js ''alpha, be'') =
   (\<lparr>inputText = js '' be'', tags = [js ''alpha''], deletionIsPending = False\<rparr>,
    [OnValueChange [js ''alpha'']])"
  by (simp add: handleInputChange_def js_def match_here_def non_delim_def delim_def
      is_space_def trim_def new_Set_def set_add_def)

text \<open>C7 as stated fails: the InputBuffer after the call is not \<^verbatim>\<open>"be"\<close>.\<close>

theorem partial_input_counterexample:
  "inputText (fst (handleInputChange
      \<lparr>inputText = [], tags = [], deletionIsPending = False\<rparr> (js ''alpha, be''))) \<noteq> js ''be''"
  by code_simp




text \<open>
  C9. Removing a tag that is not in the TagList leaves the state as it is; the host is
  notified with the unchanged list, and nothing fails.
\<close>

theorem removeTag_absent:
  "x \<notin> set (tags s) \<Longrightarrow> onDelete s x = (s, [OnValueChange (tags s)])"
proof -
  assume "x \<notin> set (tags s)"
  then have "filter (\<lambda>tagB. tagB \<noteq> x) (tags s) = tags s"
    by (auto simp: filter_id_conv)
  then show ?thesis
    by (simp add: onDelete_def)
qed

theorem removeTag_absent_witness:
  "js ''z'' \<notin> set (tags \<lparr>inputText = [], tags = [js ''a'', js ''b''], deletionIsPending = False\<rparr>)
   \<and> onDelete \<lparr>inputText = [], tags = [js ''a'', js ''b''], deletionIsPending = False\<rparr> (js ''z'') =
      (\<lparr>inputText = [], tags = [js ''a'', js ''b''], deletionIsPending = False\<rparr>,
       [OnValueChange
          (tags \<lparr>inputText = [], tags = [js ''a'', js ''b''], deletionIsPending = False\<rparr>)])"
proof -
  have a: "js ''z'' \<notin> set (tags \<lparr>inputText = [], tags = [js ''a'', js ''b''],
      deletionIsPending = False\<rparr>)"
    by (simp add: js_def)
  show ?thesis
    using a removeTag_absent [OF a] by blast
qed

text \<open>
  C10. A second qualifying Backspace on an empty TagList: the slice of the empty array is
  the empty array, so the TagList stays empty, the host is notified with the empty list
  and PendingDeletion is reset. The handler has no failing path.
\<close>

theorem second_Backspace_empty:
  "handleKeyDown \<lparr>inputText = [], tags = [], deletionIsPending = True\<rparr> (js ''Backspace'') [] =
     (\<lparr>inputText = [], tags = [], deletionIsPending = False\<rparr>, [OnValueChange []])"
proof -
  note key = Enter_neq_Backspace [symmetric]
  show ?thesis
    by (simp add: handleKeyDown_def key slice_def)
qed

end
